theory Spec2Isabelle
  imports Complex_Main
begin

section \<open>Data model of \<open>naive_bayes.py\<close>\<close>

text \<open>
  The classifier works on torch tensors of numbers. Tensor entries, the Python floats of
  the priors and the smoothing parameter are modelled as exact reals; rounding is outside
  this embedding. The values computed at inference are reals extended by the IEEE
  values \<open>+inf\<close>, \<open>-inf\<close> and \<open>nan\<close>, since the logarithm of a stored zero is \<open>-inf\<close>.

  Every exception the source or a torch call in it can raise is a value of \<open>error\<close>:
  \<^item> \<open>MustBeTrained\<close>: the \<open>ValueError\<close> of \<open>estimate_class_posteriors\<close>;
  \<^item> \<open>ModelNotTrained\<close>: the \<open>Exception\<close> of \<open>predict\<close> and \<open>predict_proba\<close>;
  \<^item> \<open>KeyError\<close>: a dict lookup with a missing key;
  \<^item> \<open>IndexError\<close>: a tensor index out of range;
  \<^item> \<open>BincountNegative\<close>: \<open>torch.bincount\<close> on a negative label;
  \<^item> \<open>SizeMismatch\<close>: an elementwise product of tensors that do not broadcast;
  \<^item> \<open>ArgmaxEmpty\<close>: \<open>torch.argmax\<close> of an empty tensor;
  \<^item> \<open>VocabSizeNone\<close>: the \<open>TypeError\<close> of \<open>delta * self.vocab_size\<close> when the field is
    \<open>None\<close>.
\<close>

datatype error =
    MustBeTrained
  | ModelNotTrained
  | KeyError int
  | IndexError
  | BincountNegative
  | SizeMismatch
  | ArgmaxEmpty
  | VocabSizeNone

text \<open>
  A two-dimensional tensor of shape \<open>(length rows, ncols)\<close>. The number of columns is a
  field of its own because a tensor with no rows still has one.
\<close>

record tensor2 =
  ncols :: nat
  rows :: "real list list"

definition wf_tensor :: "tensor2 \<Rightarrow> bool" where
  "wf_tensor t = list_all (\<lambda>r. length r = ncols t) (rows t)"

text \<open>A Python dict keyed by class id, in insertion order.\<close>

type_synonym 'v dict = "(int \<times> 'v) list"

record NaiveBayes =
  class_priors :: "real dict option"
  conditional_probabilities :: "real list dict option"
  vocab_size :: "nat option"

definition NaiveBayes_init :: NaiveBayes where
  "NaiveBayes_init =
     \<lparr>class_priors = None, conditional_probabilities = None, vocab_size = None\<rparr>"

section \<open>Training\<close>

text \<open>
  \<open>torch.bincount\<close>: refuses negative entries; otherwise the result has one cell for
  every value from 0 to the largest entry, and no cell for an empty input.
\<close>

definition num_classes :: "int list \<Rightarrow> nat" where
  "num_classes labels = fold (\<lambda>l k. max k (nat l + 1)) labels 0"

definition bincount :: "int list \<Rightarrow> error + nat list" where
  "bincount labels =
     (if list_ex (\<lambda>l. l < 0) labels then Inl BincountNegative
      else Inr (map (\<lambda>c. count_list labels (int c)) [0..<num_classes labels]))"

text \<open>
  \<open>torch.unique\<close> yields the distinct labels in ascending order;
  \<open>estimate_class_priors\<close> makes one entry for each of them.
\<close>

definition estimate_class_priors :: "int list \<Rightarrow> real dict" where
  "estimate_class_priors labels =
     map (\<lambda>unique_label.
            (unique_label, real (count_list labels unique_label) / real (length labels)))
       (sort (remdups labels))"

text \<open>
  The first loop of \<open>estimate_conditional_probabilities\<close>. \<open>features[i,:]\<close> is a view of
  row \<open>i\<close>, not a copy, so \<open>class_word_counts\<close> maps a label to the row of the feature
  matrix that was stored for it, and \<open>+=\<close> adds in place into that row. The store is the
  list of rows of the matrix; the dict holds row indices.
\<close>

fun word_count_loop ::
  "nat list \<Rightarrow> int list \<Rightarrow> real list list \<Rightarrow> nat dict \<Rightarrow> error + (real list list \<times> nat dict)"
where
  "word_count_loop [] labels store class_word_counts = Inr (store, class_word_counts)"
| "word_count_loop (i # is) labels store class_word_counts =
     (if length labels \<le> i then Inl IndexError
      else
        (case map_of class_word_counts (labels ! i) of
           Some k \<Rightarrow>
             word_count_loop is labels
               (store[k := map2 (+) (store ! k) (store ! i)]) class_word_counts
         | None \<Rightarrow>
             word_count_loop is labels store (class_word_counts @ [(labels ! i, i)])))"

definition smoothed_probs :: "real list \<Rightarrow> real \<Rightarrow> nat \<Rightarrow> real list" where
  "smoothed_probs word_counts delta v =
     (let total_words = sum_list word_counts
      in map (\<lambda>w. (w + delta) / (total_words + delta * real v)) word_counts)"

text \<open>
  The second loop reads \<open>self.vocab_size\<close> in its body: on an object that has none yet
  the product \<open>delta * None\<close> raises.
\<close>

fun smoothing_loop ::
  "nat dict \<Rightarrow> real list list \<Rightarrow> real \<Rightarrow> nat option \<Rightarrow> error + real list dict"
where
  "smoothing_loop [] store delta vs = Inr []"
| "smoothing_loop ((label, k) # cwc) store delta vs =
     (case vs of
        None \<Rightarrow> Inl VocabSizeNone
      | Some v \<Rightarrow>
          (case smoothing_loop cwc store delta vs of
             Inl e \<Rightarrow> Inl e
           | Inr cp \<Rightarrow> Inr ((label, smoothed_probs (store ! k) delta v) # cp)))"

definition estimate_conditional_probabilities ::
  "NaiveBayes \<Rightarrow> tensor2 \<Rightarrow> int list \<Rightarrow> real \<Rightarrow> error + (real list dict \<times> tensor2)"
where
  "estimate_conditional_probabilities self features labels delta =
     (case word_count_loop [0..<length (rows features)] labels (rows features) [] of
        Inl e \<Rightarrow> Inl e
      | Inr (store, class_word_counts) \<Rightarrow>
          (case smoothing_loop class_word_counts store delta (vocab_size self) of
             Inl e \<Rightarrow> Inl e
           | Inr cp \<Rightarrow> Inr (cp, features\<lparr>rows := store\<rparr>)))"

text \<open>
  \<open>fit\<close> returns the updated object together with the feature matrix as the caller
  finds it afterwards.
\<close>

definition fit ::
  "NaiveBayes \<Rightarrow> tensor2 \<Rightarrow> int list \<Rightarrow> real \<Rightarrow> error + (NaiveBayes \<times> tensor2)"
where
  "fit self features labels delta =
     (case bincount labels of
        Inl e \<Rightarrow> Inl e
      | Inr class_counts \<Rightarrow>
          (let num_examples = length labels;
               priors = map (\<lambda>i. (int i, real (class_counts ! i) / real num_examples))
                          [0..<length class_counts];
               self1 = self\<lparr>class_priors := Some priors,
                             vocab_size := Some (ncols features)\<rparr>
           in case estimate_conditional_probabilities self1 features labels delta of
                Inl e \<Rightarrow> Inl e
              | Inr (cp, features') \<Rightarrow>
                  Inr (self1\<lparr>conditional_probabilities := Some cp\<rparr>, features')))"

section \<open>Floating-point values at inference\<close>

text \<open>
  The stored priors and conditionals are reals, but their logarithms need not be:
  \<open>torch.log(0)\<close> is \<open>-inf\<close>, and \<open>0 * -inf\<close> is \<open>nan\<close>. The values that
  \<open>estimate_class_posteriors\<close>, \<open>predict\<close> and \<open>predict_proba\<close> compute with are
  therefore reals extended by the IEEE values \<open>+inf\<close>, \<open>-inf\<close> and \<open>nan\<close>, with the
  IEEE rules for them. Rounding, overflow and the sign of zero are not modelled.
\<close>

datatype tfloat = Fin real | PInf | MInf | NaN

text \<open>\<open>torch.log\<close> of a stored real.\<close>

definition tlog :: "real \<Rightarrow> tfloat" where
  "tlog x = (if 0 < x then Fin (ln x) else if x = 0 then MInf else NaN)"

fun tneg :: "tfloat \<Rightarrow> tfloat" where
  "tneg (Fin a) = Fin (- a)"
| "tneg PInf = MInf"
| "tneg MInf = PInf"
| "tneg NaN = NaN"

fun tadd :: "tfloat \<Rightarrow> tfloat \<Rightarrow> tfloat" where
  "tadd (Fin a) (Fin b) = Fin (a + b)"
| "tadd NaN y = NaN"
| "tadd x NaN = NaN"
| "tadd PInf MInf = NaN"
| "tadd MInf PInf = NaN"
| "tadd PInf y = PInf"
| "tadd x PInf = PInf"
| "tadd MInf y = MInf"
| "tadd x MInf = MInf"

fun tmul :: "tfloat \<Rightarrow> tfloat \<Rightarrow> tfloat" where
  "tmul (Fin a) (Fin b) = Fin (a * b)"
| "tmul NaN y = NaN"
| "tmul x NaN = NaN"
| "tmul (Fin a) PInf = (if 0 < a then PInf else if a < 0 then MInf else NaN)"
| "tmul (Fin a) MInf = (if 0 < a then MInf else if a < 0 then PInf else NaN)"
| "tmul PInf (Fin b) = (if 0 < b then PInf else if b < 0 then MInf else NaN)"
| "tmul MInf (Fin b) = (if 0 < b then MInf else if b < 0 then PInf else NaN)"
| "tmul PInf PInf = PInf"
| "tmul MInf MInf = PInf"
| "tmul PInf MInf = MInf"
| "tmul MInf PInf = MInf"

fun tdiv :: "tfloat \<Rightarrow> tfloat \<Rightarrow> tfloat" where
  "tdiv (Fin a) (Fin b) =
     (if b \<noteq> 0 then Fin (a / b) else if 0 < a then PInf else if a < 0 then MInf else NaN)"
| "tdiv NaN y = NaN"
| "tdiv x NaN = NaN"
| "tdiv (Fin a) PInf = Fin 0"
| "tdiv (Fin a) MInf = Fin 0"
| "tdiv PInf (Fin b) = (if 0 \<le> b then PInf else MInf)"
| "tdiv MInf (Fin b) = (if 0 \<le> b then MInf else PInf)"
| "tdiv x y = NaN"

fun texp :: "tfloat \<Rightarrow> tfloat" where
  "texp (Fin a) = Fin (exp a)"
| "texp PInf = PInf"
| "texp MInf = Fin 0"
| "texp NaN = NaN"

text \<open>The comparison \<open><\<close>: false as soon as one side is \<open>nan\<close>.\<close>

fun tlt :: "tfloat \<Rightarrow> tfloat \<Rightarrow> bool" where
  "tlt (Fin a) (Fin b) \<longleftrightarrow> a < b"
| "tlt MInf (Fin b) \<longleftrightarrow> True"
| "tlt MInf PInf \<longleftrightarrow> True"
| "tlt (Fin a) PInf \<longleftrightarrow> True"
| "tlt x y \<longleftrightarrow> False"

text \<open>\<open>torch.sum\<close> of a one-dimensional tensor.\<close>

fun tsum :: "tfloat list \<Rightarrow> tfloat" where
  "tsum [] = Fin 0"
| "tsum (x # xs) = tadd x (tsum xs)"

text \<open>The maximum that softmax subtracts; a \<open>nan\<close> anywhere makes it \<open>nan\<close>.\<close>

definition tmax2 :: "tfloat \<Rightarrow> tfloat \<Rightarrow> tfloat" where
  "tmax2 a b = (if a = NaN \<or> b = NaN then NaN else if tlt a b then b else a)"

fun tmax :: "tfloat list \<Rightarrow> tfloat" where
  "tmax [] = MInf"
| "tmax (x # xs) = tmax2 x (tmax xs)"

section \<open>Inference\<close>

text \<open>
  Elementwise product of the feature vector with a one-dimensional tensor, with torch's
  broadcasting: equal lengths, or one operand of length one.
\<close>

definition broadcast_mul :: "real list \<Rightarrow> tfloat list \<Rightarrow> error + tfloat list" where
  "broadcast_mul a b =
     (if length a = length b then Inr (map2 (\<lambda>x y. tmul (Fin x) y) a b)
      else if length a = 1 then Inr (map (\<lambda>y. tmul (Fin (hd a)) y) b)
      else if length b = 1 then Inr (map (\<lambda>x. tmul (Fin x) (hd b)) a)
      else Inl SizeMismatch)"

text \<open>Assignment \<open>t[i] = x\<close>; an index below zero counts from the end.\<close>

definition index_put :: "'a list \<Rightarrow> int \<Rightarrow> 'a \<Rightarrow> error + 'a list" where
  "index_put t i x =
     (if 0 \<le> i \<and> i < int (length t) then Inr (t[nat i := x])
      else if - int (length t) \<le> i \<and> i < 0 then Inr (t[nat (int (length t) + i) := x])
      else Inl IndexError)"

fun posteriors_loop ::
  "int list \<Rightarrow> real dict \<Rightarrow> real list dict \<Rightarrow> real list \<Rightarrow> tfloat list \<Rightarrow> error + tfloat list"
where
  "posteriors_loop [] priors conds feature log_posteriors = Inr log_posteriors"
| "posteriors_loop (class_label # ks) priors conds feature log_posteriors =
     (case map_of priors class_label of
        None \<Rightarrow> Inl (KeyError class_label)
      | Some p \<Rightarrow>
          (case map_of conds class_label of
             None \<Rightarrow> Inl (KeyError class_label)
           | Some conditional_prob \<Rightarrow>
               (case broadcast_mul feature (map tlog conditional_prob) of
                  Inl e \<Rightarrow> Inl e
                | Inr products \<Rightarrow>
                    (case index_put log_posteriors class_label (tadd (tlog p) (tsum products)) of
                       Inl e \<Rightarrow> Inl e
                     | Inr lp \<Rightarrow> posteriors_loop ks priors conds feature lp))))"

text \<open>The diagnostic \<open>print\<close> of the vector has no effect on any value and is left out.\<close>

definition estimate_class_posteriors :: "NaiveBayes \<Rightarrow> real list \<Rightarrow> error + tfloat list" where
  "estimate_class_posteriors self feature =
     (case conditional_probabilities self of
        None \<Rightarrow> Inl MustBeTrained
      | Some conds \<Rightarrow>
          (case class_priors self of
             None \<Rightarrow> Inl MustBeTrained
           | Some priors \<Rightarrow>
               posteriors_loop (map fst priors) priors conds feature
                 (replicate (length priors) (Fin 0))))"

text \<open>Python's \<open>not d\<close> for an optional dict: true for \<open>None\<close> and for the empty dict.\<close>

definition falsy :: "'v dict option \<Rightarrow> bool" where
  "falsy d = (case d of None \<Rightarrow> True | Some kvs \<Rightarrow> kvs = [])"

text \<open>
  \<open>torch.argmax\<close>: an empty tensor is refused. A \<open>nan\<close> counts as larger than every
  number, and among equal candidates the first index wins: an entry replaces the best so
  far when the best is not \<open>nan\<close> and the entry is \<open>nan\<close> or strictly larger.
\<close>

definition beats :: "tfloat \<Rightarrow> tfloat \<Rightarrow> bool" where
  "beats x best \<longleftrightarrow> best \<noteq> NaN \<and> (x = NaN \<or> tlt best x)"

fun argmax_loop :: "nat \<Rightarrow> nat \<Rightarrow> tfloat \<Rightarrow> tfloat list \<Rightarrow> nat" where
  "argmax_loop i best best_val [] = best"
| "argmax_loop i best best_val (x # xs) =
     (if beats x best_val then argmax_loop (Suc i) i x xs
      else argmax_loop (Suc i) best best_val xs)"

fun argmax :: "tfloat list \<Rightarrow> error + nat" where
  "argmax [] = Inl ArgmaxEmpty"
| "argmax (x # xs) = Inr (argmax_loop 1 0 x xs)"

text \<open>
  \<open>torch.softmax\<close>: the maximum is subtracted from every entry, the differences are
  exponentiated, and each exponential is divided by their sum.
\<close>

definition softmax :: "tfloat list \<Rightarrow> tfloat list" where
  "softmax v =
     (let m = tmax v;
          e = map (\<lambda>x. texp (tadd x (tneg m))) v;
          s = tsum e
      in map (\<lambda>y. tdiv y s) e)"

definition predict :: "NaiveBayes \<Rightarrow> real list \<Rightarrow> error + nat" where
  "predict self feature =
     (if falsy (class_priors self) \<or> falsy (conditional_probabilities self)
      then Inl ModelNotTrained
      else
        (case estimate_class_posteriors self feature of
           Inl e \<Rightarrow> Inl e
         | Inr log_posteriors \<Rightarrow> argmax log_posteriors))"

definition predict_proba :: "NaiveBayes \<Rightarrow> real list \<Rightarrow> error + tfloat list" where
  "predict_proba self feature =
     (if falsy (class_priors self) \<or> falsy (conditional_probabilities self)
      then Inl ModelNotTrained
      else
        (case estimate_class_posteriors self feature of
           Inl e \<Rightarrow> Inl e
         | Inr log_posteriors \<Rightarrow> Inr (softmax log_posteriors)))"

section \<open>Specification-level quantities\<close>

text \<open>
  The per-class word counts as the specification words them: the entry for word \<open>j\<close> is
  the sum of \<open>features[i][j]\<close> over the examples \<open>i\<close> labelled \<open>c\<close>.
  \<open>class_word_count\<close> is the same sum over the first \<open>n\<close> examples only, as it stands
  after \<open>n\<close> rounds of the first loop.
\<close>

definition class_word_count ::
  "real list list \<Rightarrow> int list \<Rightarrow> nat \<Rightarrow> int \<Rightarrow> nat \<Rightarrow> real" where
  "class_word_count R L n c j = (\<Sum>i\<leftarrow>[0..<n]. if L ! i = c then R ! i ! j else 0)"

definition class_word_counts :: "tensor2 \<Rightarrow> int list \<Rightarrow> int \<Rightarrow> real list" where
  "class_word_counts features labels c =
     map (\<lambda>j. \<Sum>i\<leftarrow>[0..<length (rows features)].
                 if labels ! i = c then rows features ! i ! j else 0)
       [0..<ncols features]"

definition total_words :: "tensor2 \<Rightarrow> int list \<Rightarrow> int \<Rightarrow> real" where
  "total_words features labels c = sum_list (class_word_counts features labels c)"

text \<open>The dict that \<open>fit\<close> builds from the bin counts, written in terms of the labels.\<close>

definition fitted_priors :: "int list \<Rightarrow> real dict" where
  "fitted_priors labels =
     map (\<lambda>i. (int i, real (count_list labels (int i)) / real (length labels)))
       [0..<num_classes labels]"

text \<open>
  The invariant of the first loop after \<open>i\<close> rounds, for the original rows \<open>R\<close>: the dict
  has one entry for each label seen, pointing at the row of its first example; that row
  holds the class sum so far; every other row is as it was.
\<close>

definition wc_inv ::
  "real list list \<Rightarrow> int list \<Rightarrow> nat \<Rightarrow> nat \<Rightarrow> real list list \<Rightarrow> nat dict \<Rightarrow> bool" where
  "wc_inv R L V i s c \<longleftrightarrow>
     length s = length R \<and> distinct (map fst c) \<and> fst ` set c = set (take i L) \<and>
     (\<forall>(l, k) \<in> set c.
        k < i \<and> L ! k = l \<and> s ! k = map (class_word_count R L i l) [0..<V]) \<and>
     (\<forall>j < length R. j \<notin> snd ` set c \<longrightarrow> s ! j = R ! j)"

text \<open>The training set of the specification's worked scenario.\<close>

definition spec_features :: tensor2 where
  "spec_features = \<lparr>ncols = 3, rows = [[1, 0, 1], [0, 1, 1], [1, 1, 0]]\<rparr>"

text \<open>
  Two examples over a vocabulary of two words. With the labels \<open>[0, 2]\<close> class 1 has no
  example although class 2 has one; with the labels \<open>[0, 1]\<close> every class has one.
\<close>

definition two_word_features :: tensor2 where
  "two_word_features = \<lparr>ncols = 2, rows = [[1, 0], [0, 1]]\<rparr>"

text \<open>The model that \<open>fit\<close> stores for the scenario (features above, labels \<open>[0,0,1]\<close>, \<open>delta = 1\<close>).\<close>

definition spec_model :: NaiveBayes where
  "spec_model =
     \<lparr>class_priors = Some [(0, 2 / 3), (1, 1 / 3)],
      conditional_probabilities = Some [(0, [2 / 7, 2 / 7, 3 / 7]), (1, [2 / 5, 2 / 5, 1 / 5])],
      vocab_size = Some 3\<rparr>"

text \<open>
  The model that \<open>fit\<close> stores for the two-word features with the labels \<open>[0, 2]\<close> and
  \<open>delta = 1\<close>: class 1 has a prior and no conditionals.
\<close>

definition gap_model :: NaiveBayes where
  "gap_model =
     \<lparr>class_priors = Some [(0, 1 / 2), (1, 0), (2, 1 / 2)],
      conditional_probabilities = Some [(0, [2 / 3, 1 / 3]), (2, [1 / 3, 2 / 3])],
      vocab_size = Some 2\<rparr>"

text \<open>
  The model that \<open>fit\<close> stores for the two-word features with the labels \<open>[0, 1]\<close> and
  \<open>delta = 0\<close>: without smoothing a word that a class never saw has probability 0.
\<close>

definition unsmoothed_model :: NaiveBayes where
  "unsmoothed_model =
     \<lparr>class_priors = Some [(0, 1 / 2), (1, 1 / 2)],
      conditional_probabilities = Some [(0, [1, 0]), (1, [0, 1])],
      vocab_size = Some 2\<rparr>"

text \<open>One example over an empty vocabulary: a tensor of shape \<open>(1, 0)\<close>.\<close>

definition empty_vocab_features :: tensor2 where
  "empty_vocab_features = \<lparr>ncols = 0, rows = [[]]\<rparr>"

text \<open>
  A training set without a missing class: a well-formed matrix of non-negative counts,
  one label per row, at least one example, labels non-negative, and every class id from
  0 to the largest label has an example.
\<close>

definition valid_training :: "tensor2 \<Rightarrow> int list \<Rightarrow> bool" where
  "valid_training features labels \<longleftrightarrow>
     wf_tensor features \<and> length (rows features) = length labels \<and> labels \<noteq> [] \<and>
     (\<forall>l \<in> set labels. 0 \<le> l) \<and>
     (\<forall>c \<in> {0..Max (set labels)}. c \<in> set labels) \<and>
     (\<forall>r \<in> set (rows features). \<forall>x \<in> set r. 0 \<le> x)"

text \<open>The log-posterior of one class as the specification writes it.\<close>

definition log_posterior :: "real \<Rightarrow> real list \<Rightarrow> real list \<Rightarrow> real" where
  "log_posterior p cp feature = ln p + (\<Sum>j < length feature. feature ! j * ln (cp ! j))"

text \<open>\<open>c\<close> is the index of the first maximal entry of a vector of numbers.\<close>

definition first_max :: "real list \<Rightarrow> nat \<Rightarrow> bool" where
  "first_max v c \<longleftrightarrow>
     c < length v \<and> (\<forall>i < length v. v ! i \<le> v ! c) \<and> (\<forall>i < c. v ! i < v ! c)"

text \<open>
  The log-posteriors on which softmax yields numbers: none is \<open>nan\<close> or \<open>+inf\<close>, and
  at least one is not \<open>-inf\<close>.
\<close>

definition softmax_defined :: "tfloat list \<Rightarrow> bool" where
  "softmax_defined lp \<longleftrightarrow>
     (\<forall>x \<in> set lp. x \<noteq> NaN \<and> x \<noteq> PInf) \<and> (\<exists>x \<in> set lp. x \<noteq> MInf)"

text \<open>The exponential of an entry after the maximum \<open>M\<close> was subtracted, as a real.\<close>

fun shifted_exp :: "real \<Rightarrow> tfloat \<Rightarrow> real" where
  "shifted_exp M (Fin a) = exp (a - M)"
| "shifted_exp M x = 0"

section \<open>Inference before training\<close>

text \<open>
  Claim C3. On a freshly constructed classifier, on which \<open>fit\<close> was never called, each
  of \<open>estimate_class_posteriors\<close>, \<open>predict\<close> and \<open>predict_proba\<close> raises its
  "not trained" error for every feature vector: the \<open>ValueError\<close> of
  \<open>estimate_class_posteriors\<close>, the \<open>Exception\<close> of the other two. None of them returns
  a value and none reaches a lookup in the absent dicts.
\<close>

theorem untrained_inference_raises:
  "estimate_class_posteriors NaiveBayes_init feature = Inl MustBeTrained \<and>
   predict NaiveBayes_init feature = Inl ModelNotTrained \<and>
   predict_proba NaiveBayes_init feature = Inl ModelNotTrained"
  by (simp add: estimate_class_posteriors_def predict_def predict_proba_def
      NaiveBayes_init_def falsy_def)

text \<open>The three calls on the feature vector \<open>[1,1,0]\<close>.\<close>

theorem untrained_inference_raises_witness:
  "estimate_class_posteriors NaiveBayes_init [1, 1, 0] = Inl MustBeTrained \<and>
   predict NaiveBayes_init [1, 1, 0] = Inl ModelNotTrained \<and>
   predict_proba NaiveBayes_init [1, 1, 0] = Inl ModelNotTrained"
  by (rule untrained_inference_raises[of "[1, 1, 0]"])

section \<open>The word-count loop\<close>

lemma class_word_count_Suc:
  "class_word_count R L (Suc n) c j =
     class_word_count R L n c j + (if L ! n = c then R ! n ! j else 0)"
  by (simp add: class_word_count_def)

lemma class_word_count_unseen:
  "n \<le> length L \<Longrightarrow> c \<notin> set (take n L) \<Longrightarrow> class_word_count R L n c j = 0"
proof (induction n)
  case 0
  then show ?case by (simp add: class_word_count_def)
next
  case (Suc n)
  then have "L ! n \<noteq> c" "c \<notin> set (take n L)"
    by (auto simp: take_Suc_conv_app_nth)
  with Suc show ?case by (simp add: class_word_count_Suc)
qed

lemma word_count_loop_append:
  "word_count_loop (is @ js) L s c =
     (case word_count_loop is L s c of
        Inl e \<Rightarrow> Inl e
      | Inr (s', c') \<Rightarrow> word_count_loop js L s' c')"
  by (induction "is" L s c rule: word_count_loop.induct) (auto split: option.splits)

lemma map2_plus_row:
  "length r = V \<Longrightarrow> map2 (+) (map f [0..<V]) r = map (\<lambda>j. f j + r ! j) [0..<V]"
  by (rule nth_equalityI) auto

lemma row_as_map: "length r = V \<Longrightarrow> r = map (\<lambda>j. r ! j) [0..<V]"
  by (rule nth_equalityI) auto

lemma wc_inv_step:
  assumes inv: "wc_inv R L V i s c"
    and i: "i < length R" "i < length L"
    and wf: "\<forall>r \<in> set R. length r = V"
  shows "\<exists>s' c'. word_count_loop [i] L s c = Inr (s', c') \<and> wc_inv R L V (Suc i) s' c'"
proof -
  from inv have len: "length s = length R" and dist: "distinct (map fst c)"
    and keys: "fst ` set c = set (take i L)"
    and ent: "\<And>l k. (l, k) \<in> set c \<Longrightarrow> k < i \<and> L ! k = l \<and> s ! k = map (class_word_count R L i l) [0..<V]"
    and rest: "\<And>j. j < length R \<Longrightarrow> j \<notin> snd ` set c \<Longrightarrow> s ! j = R ! j"
    unfolding wc_inv_def by auto
  have inot: "i \<notin> snd ` set c" using ent by force
  have si: "s ! i = R ! i" using rest i inot by simp
  have lenRi: "length (R ! i) = V" using wf i by simp
  have take: "set (take (Suc i) L) = insert (L ! i) (set (take i L))"
    using i by (simp add: take_Suc_conv_app_nth)
  show ?thesis
  proof (cases "map_of c (L ! i)")
    case None
    then have new: "L ! i \<notin> fst ` set c" by (simp add: map_of_eq_None_iff)
    let ?c = "c @ [(L ! i, i)]"
    have run: "word_count_loop [i] L s c = Inr (s, ?c)" using None i by simp
    have zero: "class_word_count R L i (L ! i) j = 0" for j
      using class_word_count_unseen[of i L "L ! i"] new keys i by simp
    have "wc_inv R L V (Suc i) s ?c"
      unfolding wc_inv_def
    proof (intro conjI)
      show "length s = length R" by (rule len)
      show "distinct (map fst ?c)" using dist new by simp
      show "fst ` set ?c = set (take (Suc i) L)" using keys take by auto
      show "\<forall>(l, k) \<in> set ?c. k < Suc i \<and> L ! k = l \<and> s ! k = map (class_word_count R L (Suc i) l) [0..<V]"
      proof (clarify)
        fix l k assume lk: "(l, k) \<in> set ?c"
        show "k < Suc i \<and> L ! k = l \<and> s ! k = map (class_word_count R L (Suc i) l) [0..<V]"
        proof (cases "(l, k) \<in> set c")
          case True
          then have "l \<noteq> L ! i" using new by force
          then show ?thesis using ent[OF True] by (simp add: class_word_count_Suc)
        next
          case False
          then have e: "l = L ! i" "k = i" using lk by auto
          have "s ! i = map (\<lambda>j. R ! i ! j) [0..<V]"
            using si row_as_map[OF lenRi] by simp
          then show ?thesis using e by (simp add: class_word_count_Suc zero)
        qed
      qed
      show "\<forall>j<length R. j \<notin> snd ` set ?c \<longrightarrow> s ! j = R ! j"
        using rest by auto
    qed
    with run show ?thesis by blast
  next
    case (Some k)
    then have mem: "(L ! i, k) \<in> set c" by (rule map_of_SomeD)
    from ent[OF mem] have k: "k < i" "L ! k = L ! i"
      and sk: "s ! k = map (class_word_count R L i (L ! i)) [0..<V]" by auto
    let ?s = "s[k := map2 (+) (s ! k) (s ! i)]"
    have run: "word_count_loop [i] L s c = Inr (?s, c)" using Some i by simp
    have klen: "k < length s" using k i len by simp
    have newrow: "?s ! k = map (class_word_count R L (Suc i) (L ! i)) [0..<V]"
      using klen sk si map2_plus_row[OF lenRi] by (simp add: class_word_count_Suc)
    have "wc_inv R L V (Suc i) ?s c"
      unfolding wc_inv_def
    proof (intro conjI)
      show "length ?s = length R" using len by simp
      show "distinct (map fst c)" by (rule dist)
      show "fst ` set c = set (take (Suc i) L)" using keys take mem by force
      show "\<forall>(l, k') \<in> set c. k' < Suc i \<and> L ! k' = l \<and> ?s ! k' = map (class_word_count R L (Suc i) l) [0..<V]"
      proof (clarify)
        fix l k' assume lk: "(l, k') \<in> set c"
        show "k' < Suc i \<and> L ! k' = l \<and> ?s ! k' = map (class_word_count R L (Suc i) l) [0..<V]"
        proof (cases "k' = k")
          case True
          then have "l = L ! i" using ent[OF lk] k by simp
          then show ?thesis using True newrow k by simp
        next
          case False
          have "l \<noteq> L ! i"
          proof
            assume "l = L ! i"
            then have "map_of c (L ! i) = Some k'" using lk dist by simp
            then show False using Some False by simp
          qed
          then show ?thesis using ent[OF lk] False by (simp add: class_word_count_Suc)
        qed
      qed
      show "\<forall>j<length R. j \<notin> snd ` set c \<longrightarrow> ?s ! j = R ! j"
      proof (intro allI impI)
        fix j assume j: "j < length R" "j \<notin> snd ` set c"
        then have "j \<noteq> k" using mem by force
        then show "?s ! j = R ! j" using rest[OF j] by simp
      qed
    qed
    with run show ?thesis by blast
  qed
qed

lemma wc_inv_loop:
  assumes wf: "\<forall>r \<in> set R. length r = V"
    and n: "n \<le> length R" "n \<le> length L"
  shows "\<exists>s c. word_count_loop [0..<n] L R [] = Inr (s, c) \<and> wc_inv R L V n s c"
  using n
proof (induction n)
  case 0
  then show ?case by (simp add: wc_inv_def)
next
  case (Suc n)
  then obtain s c where run: "word_count_loop [0..<n] L R [] = Inr (s, c)"
    and inv: "wc_inv R L V n s c" by auto
  from wc_inv_step[OF inv _ _ wf] Suc.prems
  obtain s' c' where "word_count_loop [n] L s c = Inr (s', c')" "wc_inv R L V (Suc n) s' c'"
    by auto
  then show ?case using run by (simp add: word_count_loop_append)
qed

section \<open>Bin counts\<close>

lemma fold_max_ge: "k \<le> fold (\<lambda>l k. max k (nat l + 1)) L (k::nat)"
proof (induction L arbitrary: k)
  case Nil
  show ?case by simp
next
  case (Cons a L)
  have "max k (nat a + 1) \<le> fold (\<lambda>l k. max k (nat l + 1)) L (max k (nat a + 1))"
    by (rule Cons.IH)
  then show ?case by simp
qed

lemma fold_max_bound:
  "l \<in> set L \<Longrightarrow> nat l < fold (\<lambda>l k. max k (nat l + 1)) L k"
proof (induction L arbitrary: k)
  case Nil
  then show ?case by simp
next
  case (Cons a L)
  show ?case
  proof (cases "l = a")
    case True
    have "max k (nat a + 1) \<le> fold (\<lambda>l k. max k (nat l + 1)) L (max k (nat a + 1))"
      by (rule fold_max_ge)
    then show ?thesis using True by simp
  next
    case False
    then have "l \<in> set L" using Cons.prems by simp
    then show ?thesis using Cons.IH by simp
  qed
qed

lemma fold_max_attained:
  "fold (\<lambda>l k. max k (nat l + 1)) L k = k \<or>
   (\<exists>l \<in> set L. fold (\<lambda>l k. max k (nat l + 1)) L k = nat l + 1)"
proof (induction L arbitrary: k)
  case Nil
  show ?case by simp
next
  case (Cons a L)
  from Cons.IH[of "max k (nat a + 1)"] show ?case
    by (auto simp: max_def split: if_splits)
qed

lemma num_classes_bound: "l \<in> set L \<Longrightarrow> nat l < num_classes L"
  unfolding num_classes_def by (rule fold_max_bound)

lemma num_classes_attained:
  "L \<noteq> [] \<Longrightarrow> \<exists>l \<in> set L. num_classes L = nat l + 1"
proof -
  assume ne: "L \<noteq> []"
  then obtain a where "a \<in> set L" by (cases L) auto
  then have "0 < num_classes L" using num_classes_bound[of a L] by simp
  then show ?thesis using fold_max_attained[of L 0] unfolding num_classes_def by auto
qed

lemma num_classes_Nil: "num_classes [] = 0"
  by (simp add: num_classes_def)

lemma bincount_nonneg:
  "\<forall>l \<in> set L. 0 \<le> l \<Longrightarrow>
   bincount L = Inr (map (\<lambda>c. count_list L (int c)) [0..<num_classes L])"
  by (auto simp: bincount_def list_ex_iff)

lemma bincount_negative:
  "\<exists>l \<in> set L. l < 0 \<Longrightarrow> bincount L = Inl BincountNegative"
  by (auto simp: bincount_def list_ex_iff)

section \<open>What \<open>fit\<close> stores\<close>

lemma smoothing_loop_Some:
  "smoothing_loop c s d (Some v) = Inr (map (\<lambda>(l, k). (l, smoothed_probs (s ! k) d v)) c)"
  by (induction c) auto

lemma wc_inv_final_row:
  assumes "wc_inv (rows F) L (ncols F) (length (rows F)) s c" "(l, k) \<in> set c"
  shows "s ! k = class_word_counts F L l"
  using assms unfolding wc_inv_def class_word_counts_def class_word_count_def by auto

lemma map_of_smoothed:
  assumes inv: "wc_inv (rows F) L (ncols F) (length (rows F)) s c"
    and len: "length (rows F) = length L"
  shows "map_of (map (\<lambda>(l, k). (l, smoothed_probs (s ! k) d v)) c) x =
         (if x \<in> set L then Some (smoothed_probs (class_word_counts F L x) d v) else None)"
proof (cases "x \<in> set L")
  case True
  from inv len have keys: "fst ` set c = set L" and dist: "distinct (map fst c)"
    unfolding wc_inv_def by auto
  from True keys obtain k where mem: "(x, k) \<in> set c" by force
  have d2: "distinct (map fst (map (\<lambda>(l, k). (l, smoothed_probs (s ! k) d v)) c))"
    using dist by (simp add: comp_def case_prod_unfold)
  have "(x, smoothed_probs (s ! k) d v) \<in> set (map (\<lambda>(l, k). (l, smoothed_probs (s ! k) d v)) c)"
    using mem by force
  then have "map_of (map (\<lambda>(l, k). (l, smoothed_probs (s ! k) d v)) c) x
             = Some (smoothed_probs (s ! k) d v)"
    using d2 by (rule map_of_is_SomeI[rotated])
  then show ?thesis using True wc_inv_final_row[OF inv mem] by simp
next
  case False
  from inv len have keys: "fst ` set c = set L" unfolding wc_inv_def by auto
  have "x \<notin> fst ` set (map (\<lambda>(l, k). (l, smoothed_probs (s ! k) d v)) c)"
    using False keys by force
  then show ?thesis using False by (simp add: map_of_eq_None_iff)
qed

lemma fit_returns:
  assumes wf: "wf_tensor F" and len: "length (rows F) = length L"
    and nonneg: "\<forall>l \<in> set L. 0 \<le> l"
  shows "\<exists>m F' cond. fit self F L d = Inr (m, F') \<and>
           class_priors m = Some (fitted_priors L) \<and>
           vocab_size m = Some (ncols F) \<and>
           conditional_probabilities m = Some cond \<and>
           (\<forall>x. map_of cond x =
              (if x \<in> set L then Some (smoothed_probs (class_word_counts F L x) d (ncols F))
               else None))"
proof -
  from wf have rowlen: "\<forall>r \<in> set (rows F). length r = ncols F"
    by (simp add: wf_tensor_def list_all_iff)
  from wc_inv_loop[OF rowlen, of "length (rows F)" L] len
  obtain s c where run: "word_count_loop [0..<length (rows F)] L (rows F) [] = Inr (s, c)"
    and inv: "wc_inv (rows F) L (ncols F) (length (rows F)) s c" by auto
  let ?cond = "map (\<lambda>(l, k). (l, smoothed_probs (s ! k) d (ncols F))) c"
  have "fit self F L d =
          Inr (self\<lparr>class_priors := Some (fitted_priors L), vocab_size := Some (ncols F),
                    conditional_probabilities := Some ?cond\<rparr>, F\<lparr>rows := s\<rparr>)"
    by (simp add: fit_def bincount_nonneg[OF nonneg] estimate_conditional_probabilities_def
        run smoothing_loop_Some fitted_priors_def)
  moreover have "\<forall>x. map_of ?cond x =
      (if x \<in> set L then Some (smoothed_probs (class_word_counts F L x) d (ncols F)) else None)"
    using map_of_smoothed[OF inv len] by simp
  ultimately show ?thesis by simp
qed

lemma length_class_word_counts: "length (class_word_counts F L c) = ncols F"
  by (simp add: class_word_counts_def)


lemma fit_spec_features:
  "fit NaiveBayes_init spec_features [0, 0, 1] 1 =
     Inr (\<lparr>class_priors = Some [(0, 2 / 3), (1, 1 / 3)],
           conditional_probabilities = Some [(0, [2 / 7, 2 / 7, 3 / 7]), (1, [2 / 5, 2 / 5, 1 / 5])],
           vocab_size = Some 3\<rparr>,
          \<lparr>ncols = 3, rows = [[1, 1, 2], [0, 1, 1], [1, 1, 0]]\<rparr>)"
  by (simp add: fit_def bincount_def num_classes_def estimate_conditional_probabilities_def spec_features_def
      NaiveBayes_init_def smoothed_probs_def upt_rec numeral_eq_Suc)


text \<open>
  Claim C10 says that \<open>fit\<close> leaves the caller's feature matrix as it was. The source
  stores the view \<open>features[i,:]\<close> in \<open>class_word_counts\<close> and then adds into it with
  \<open>+=\<close>, so the first row of every class is overwritten with the class sum: in the
  scenario above row 0 is \<open>[1,0,1]\<close> before the call and \<open>[1,1,2]\<close> after it.
\<close>

theorem fit_overwrites_class_row:
  "(\<exists>m. fit NaiveBayes_init spec_features [0, 0, 1] 1 =
          Inr (m, spec_features\<lparr>rows := [[1, 1, 2], [0, 1, 1], [1, 1, 0]]\<rparr>)) \<and>
   rows spec_features = [[1, 0, 1], [0, 1, 1], [1, 1, 0]]"
  by (simp add: fit_spec_features) (simp add: spec_features_def)

lemma fit_InrD:
  assumes "fit self F L d = Inr (m, F')"
  shows "class_priors m = Some (fitted_priors L)" and "\<forall>l \<in> set L. 0 \<le> l"
    and "vocab_size m = Some (ncols F)"
proof -
  have nonneg: "\<forall>l \<in> set L. 0 \<le> l"
  proof (rule ccontr)
    assume "\<not> ?thesis"
    then have "\<exists>l \<in> set L. l < 0" by (simp add: not_le)
    then have "fit self F L d = Inl BincountNegative"
      by (simp add: fit_def bincount_negative)
    with assms show False by simp
  qed
  then show "\<forall>l \<in> set L. 0 \<le> l" .
  from assms show "class_priors m = Some (fitted_priors L)"
    by (auto simp: fit_def bincount_nonneg[OF nonneg] fitted_priors_def Let_def
        split: sum.splits)
  from assms show "vocab_size m = Some (ncols F)"
    by (auto simp: fit_def bincount_nonneg[OF nonneg] Let_def split: sum.splits)
qed

lemma fitted_priors_keys: "map fst (fitted_priors L) = map int [0..<num_classes L]"
  by (simp add: fitted_priors_def comp_def)

lemma map_of_fitted_priors:
  "map_of (fitted_priors L) c =
     (if 0 \<le> c \<and> nat c < num_classes L
      then Some (real (count_list L c) / real (length L)) else None)"
proof (cases "0 \<le> c \<and> nat c < num_classes L")
  case True
  have "distinct (map fst (fitted_priors L))"
    by (simp add: fitted_priors_keys distinct_map inj_on_def)
  moreover have "(c, real (count_list L c) / real (length L)) \<in> set (fitted_priors L)"
    using True unfolding fitted_priors_def by (auto simp: image_iff intro!: bexI[of _ "nat c"])
  ultimately show ?thesis using True by simp
next
  case False
  then have "c \<notin> fst ` set (fitted_priors L)"
    unfolding fitted_priors_def by (auto simp: image_iff)
  then have "map_of (fitted_priors L) c = None" by (simp add: map_of_eq_None_iff)
  then show ?thesis using False by auto
qed

lemma class_range:
  assumes "\<forall>l \<in> set L. 0 \<le> l"
  shows "(0 \<le> c \<and> nat c < num_classes L) \<longleftrightarrow> (0 \<le> c \<and> (\<exists>l \<in> set L. c \<le> l))"
proof
  assume a: "0 \<le> c \<and> nat c < num_classes L"
  then have "L \<noteq> []" by (auto simp: num_classes_Nil)
  then obtain l where "l \<in> set L" "num_classes L = nat l + 1"
    using num_classes_attained by blast
  then show "0 \<le> c \<and> (\<exists>l \<in> set L. c \<le> l)" using a assms by (intro conjI bexI[of _ l]) auto
next
  assume a: "0 \<le> c \<and> (\<exists>l \<in> set L. c \<le> l)"
  then obtain l where l: "l \<in> set L" "c \<le> l" by auto
  then have "nat c \<le> nat l" by simp
  then show "0 \<le> c \<and> nat c < num_classes L" using a num_classes_bound[OF l(1)] by simp
qed

section \<open>The stored priors\<close>

lemma fit_gap_labels:
  "fit NaiveBayes_init two_word_features [0, 2] 1 =
     Inr (\<lparr>class_priors = Some [(0, 1 / 2), (1, 0), (2, 1 / 2)],
           conditional_probabilities = Some [(0, [2 / 3, 1 / 3]), (2, [1 / 3, 2 / 3])],
           vocab_size = Some 2\<rparr>, two_word_features)"
  by (simp add: fit_def bincount_def num_classes_def estimate_conditional_probabilities_def
      two_word_features_def NaiveBayes_init_def smoothed_probs_def upt_rec numeral_eq_Suc)

text \<open>
  What \<open>fit\<close> stores as priors: the keys are exactly the class ids from 0 to the largest
  label, no key twice, each with \<open>count / total\<close>, which is 0 for a class id without
  example.
\<close>

lemma fit_priors_keys:
  assumes "fit self features labels delta = Inr (m, features')"
  shows "\<exists>priors. class_priors m = Some priors \<and>
           distinct (map fst priors) \<and>
           set (map fst priors) = {c. 0 \<le> c \<and> (\<exists>l \<in> set labels. c \<le> l)} \<and>
           (\<forall>c \<in> set (map fst priors).
              map_of priors c = Some (real (count_list labels c) / real (length labels)) \<and>
              (c \<notin> set labels \<longrightarrow> map_of priors c = Some 0))"
proof -
  from fit_InrD[OF assms] have pri: "class_priors m = Some (fitted_priors labels)"
    and nonneg: "\<forall>l \<in> set labels. 0 \<le> l" by auto
  have keys: "set (map fst (fitted_priors labels)) = {c. 0 \<le> c \<and> (\<exists>l \<in> set labels. c \<le> l)}"
  proof -
    have "c \<in> set (map fst (fitted_priors labels)) \<longleftrightarrow> 0 \<le> c \<and> nat c < num_classes labels"
      for c
    proof
      assume "c \<in> set (map fst (fitted_priors labels))"
      then show "0 \<le> c \<and> nat c < num_classes labels" by (auto simp: fitted_priors_keys)
    next
      assume a: "0 \<le> c \<and> nat c < num_classes labels"
      then have "c \<in> int ` {0..<num_classes labels}"
        by (intro image_eqI[of _ _ "nat c"]) auto
      then show "c \<in> set (map fst (fitted_priors labels))" by (simp add: fitted_priors_keys)
    qed
    then show ?thesis using class_range[OF nonneg] by auto
  qed
  have dist: "distinct (map fst (fitted_priors labels))"
    by (simp add: fitted_priors_keys distinct_map inj_on_def)
  have val: "map_of (fitted_priors labels) c =
      Some (real (count_list labels c) / real (length labels)) \<and>
      (c \<notin> set labels \<longrightarrow> map_of (fitted_priors labels) c = Some 0)"
    if "c \<in> set (map fst (fitted_priors labels))" for c
  proof -
    from that keys have "0 \<le> c \<and> (\<exists>l \<in> set labels. c \<le> l)" by auto
    then have "0 \<le> c \<and> nat c < num_classes labels" using class_range[OF nonneg, of c] by blast
    then show ?thesis by (simp add: map_of_fitted_priors count_list_0_iff)
  qed
  show ?thesis using pri keys dist val by blast
qed

text \<open>
  \<open>estimate_class_priors\<close>, which \<open>fit\<close> does not call, has a key for the observed
  labels only.
\<close>

lemma estimate_class_priors_keys:
  "set (map fst (estimate_class_priors labels)) = set labels"
  by (simp add: estimate_class_priors_def comp_def)

lemma sum_list_divide:
  "(\<Sum>x\<leftarrow>xs. f x / c) = (\<Sum>x\<leftarrow>xs. f x) / (c::real)"
  by (induction xs) (simp_all add: add_divide_distrib)

lemma real_sum_list: "real (\<Sum>x\<leftarrow>xs. f x) = (\<Sum>x\<leftarrow>xs. real (f x))"
  by (induction xs) simp_all

lemma sum_fitted_priors:
  assumes nonneg: "\<forall>l \<in> set L. 0 \<le> l" and ne: "L \<noteq> []"
  shows "sum_list (map snd (fitted_priors L)) = 1"
proof -
  let ?K = "num_classes L"
  have sub: "set L \<subseteq> int ` {0..<?K}"
  proof
    fix l assume l: "l \<in> set L"
    then have "nat l < ?K" by (rule num_classes_bound)
    moreover have "l = int (nat l)" using nonneg l by simp
    ultimately show "l \<in> int ` {0..<?K}" by (metis atLeastLessThan_iff image_eqI le0)
  qed
  have "(\<Sum>i\<leftarrow>[0..<?K]. count_list L (int i)) = sum (\<lambda>i. count_list L (int i)) {0..<?K}"
    by (simp add: interv_sum_list_conv_sum_set_nat)
  also have "\<dots> = sum (count_list L) (int ` {0..<?K})"
    by (simp add: sum.reindex)
  also have "\<dots> = length L" using sub by (simp add: sum_count_set)
  finally have cnt: "(\<Sum>i\<leftarrow>[0..<?K]. count_list L (int i)) = length L" .
  have "sum_list (map snd (fitted_priors L)) =
        (\<Sum>i\<leftarrow>[0..<?K]. real (count_list L (int i)) / real (length L))"
    by (simp add: fitted_priors_def comp_def)
  also have "\<dots> = (\<Sum>i\<leftarrow>[0..<?K]. real (count_list L (int i))) / real (length L)"
    by (rule sum_list_divide)
  also have "\<dots> = real (length L) / real (length L)"
    using cnt by (simp add: real_sum_list[symmetric])
  finally show ?thesis using ne by simp
qed

text \<open>
  Claim C5 says that after \<open>fit\<close> the class priors have a key only for the class ids
  that occur in the labels, a class id between 0 and the largest label without example
  being absent. \<open>fit\<close> does not call \<open>estimate_class_priors\<close>, which keys the observed
  labels only, but builds the dict from \<open>torch.bincount\<close> over
  \<open>range(len(class_counts))\<close>: with the labels \<open>[0, 2]\<close> class 1, which occurs zero
  times, is stored with prior 0, while the conditionals have no entry for it.
\<close>

theorem fit_priors_zero_entry:
  "fit NaiveBayes_init two_word_features [0, 2] 1 =
     Inr (\<lparr>class_priors = Some [(0, 1 / 2), (1, 0), (2, 1 / 2)],
           conditional_probabilities = Some [(0, [2 / 3, 1 / 3]), (2, [1 / 3, 2 / 3])],
           vocab_size = Some 2\<rparr>, two_word_features) \<and>
   count_list [0, 2 :: int] 1 = 0 \<and>
   map fst (estimate_class_priors [0, 2]) = [0, 2]"
  using fit_gap_labels by (simp add: estimate_class_priors_def)

text \<open>
  Claim C6. For a non-empty label vector, after \<open>fit\<close> the stored prior of every
  observed class \<open>c\<close> is the number of examples labelled \<open>c\<close> divided by the number of
  examples, and the stored priors sum to 1 (exactly, hence within \<open>1e-6\<close>).
\<close>

theorem fit_priors_sum_to_one:
  assumes "fit self features labels delta = Inr (m, features')" and "labels \<noteq> []"
  shows "\<exists>priors. class_priors m = Some priors \<and>
           (\<forall>c \<in> set labels.
              map_of priors c = Some (real (count_list labels c) / real (length labels))) \<and>
           sum_list (map snd priors) = 1 \<and>
           \<bar>sum_list (map snd priors) - 1\<bar> \<le> 1 / 10 ^ 6"
proof -
  from fit_InrD[OF assms(1)] have pri: "class_priors m = Some (fitted_priors labels)"
    and nonneg: "\<forall>l \<in> set labels. 0 \<le> l" by auto
  have "map_of (fitted_priors labels) c =
          Some (real (count_list labels c) / real (length labels))"
    if "c \<in> set labels" for c
    using that nonneg num_classes_bound[OF that] by (simp add: map_of_fitted_priors)
  moreover have "sum_list (map snd (fitted_priors labels)) = 1"
    using sum_fitted_priors[OF nonneg assms(2)] .
  ultimately show ?thesis using pri by simp
qed

text \<open>In the specification's scenario the priors are \<open>2/3\<close> and \<open>1/3\<close>.\<close>

theorem fit_priors_sum_to_one_witness:
  "\<exists>m features' priors.
     fit NaiveBayes_init spec_features [0, 0, 1] 1 = Inr (m, features') \<and>
     class_priors m = Some priors \<and>
     map_of priors 0 = Some (2 / 3) \<and> map_of priors 1 = Some (1 / 3) \<and>
     sum_list (map snd priors) = 1"
proof -
  from fit_spec_features obtain m F' where
    fit: "fit NaiveBayes_init spec_features [0, 0, 1] 1 = Inr (m, F')" by blast
  from fit_priors_sum_to_one[OF fit] obtain priors where pri: "class_priors m = Some priors"
    and val: "\<forall>c \<in> set [0, 0, 1 :: int].
       map_of priors c = Some (real (count_list [0, 0, 1] c) / real (length [0, 0, 1 :: int]))"
    and sum: "sum_list (map snd priors) = 1"
    by auto
  from val have "map_of priors 0 = Some (2 / 3)" "map_of priors 1 = Some (1 / 3)"
    by simp_all
  with fit pri sum show ?thesis by blast
qed

lemma class_word_counts_nonneg:
  assumes wf: "wf_tensor F" and nn: "\<forall>r \<in> set (rows F). \<forall>x \<in> set r. 0 \<le> x"
  shows "\<forall>w \<in> set (class_word_counts F L c). 0 \<le> w"
proof -
  have "0 \<le> (\<Sum>i\<leftarrow>[0..<length (rows F)]. if L ! i = c then rows F ! i ! j else 0)"
    if j: "j < ncols F" for j
  proof (rule sum_list_nonneg)
    fix x assume "x \<in> set (map (\<lambda>i. if L ! i = c then rows F ! i ! j else 0) [0..<length (rows F)])"
    then obtain i where i: "i < length (rows F)"
      and x: "x = (if L ! i = c then rows F ! i ! j else 0)" by auto
    have "length (rows F ! i) = ncols F"
      using wf i by (simp add: wf_tensor_def list_all_length)
    then have "rows F ! i ! j \<in> set (rows F ! i)" using j by simp
    then have "0 \<le> rows F ! i ! j" using nn i nth_mem by blast
    then show "0 \<le> x" using x by simp
  qed
  then show ?thesis by (auto simp: class_word_counts_def)
qed

lemma sum_list_smoothed:
  "sum_list (map (\<lambda>w. (w + d) / D) ws) = (sum_list ws + d * real (length ws)) / (D::real)"
  by (induction ws) (simp_all add: add_divide_distrib algebra_simps)

lemma smoothed_probs_distribution:
  assumes "length ws = V" "0 < V" "0 < d" "\<forall>w \<in> set ws. 0 \<le> w"
  shows "sum_list (smoothed_probs ws d V) = 1" and "\<forall>x \<in> set (smoothed_probs ws d V). 0 < x"
proof -
  have tot: "0 \<le> sum_list ws" using assms(4) by (simp add: sum_list_nonneg)
  have "0 < d * real V" using assms by simp
  then have D: "0 < sum_list ws + d * real V" using tot by linarith
  show "sum_list (smoothed_probs ws d V) = 1"
    using D assms(1) by (simp add: smoothed_probs_def sum_list_smoothed)
  show "\<forall>x \<in> set (smoothed_probs ws d V). 0 < x"
  proof
    fix x assume "x \<in> set (smoothed_probs ws d V)"
    then obtain w where "w \<in> set ws" "x = (w + d) / (sum_list ws + d * real V)"
      by (auto simp: smoothed_probs_def)
    then show "0 < x" using D assms(3,4) by (simp add: add_nonneg_pos)
  qed
qed

section \<open>The stored conditionals are distributions\<close>

lemma fit_empty_vocab:
  "fit NaiveBayes_init empty_vocab_features [0] 1 =
     Inr (\<lparr>class_priors = Some [(0, 1)], conditional_probabilities = Some [(0, [])],
           vocab_size = Some 0\<rparr>, empty_vocab_features)"
  by (simp add: fit_def bincount_def num_classes_def estimate_conditional_probabilities_def
      empty_vocab_features_def NaiveBayes_init_def smoothed_probs_def)

text \<open>
  Claim C7 says that for every training set, every class with an example and every
  \<open>delta > 0\<close> the stored conditional vector sums to 1 within tolerance. For a feature
  matrix with no column the stored vector is empty, and its sum is 0.
\<close>

theorem fit_conditional_empty_vocabulary:
  "fit NaiveBayes_init empty_vocab_features [0] 1 =
     Inr (\<lparr>class_priors = Some [(0, 1)], conditional_probabilities = Some [(0, [])],
           vocab_size = Some 0\<rparr>, empty_vocab_features) \<and>
   \<not> \<bar>sum_list ([] :: real list) - 1\<bar> \<le> 1 / 10 ^ 6"
  by (simp add: fit_empty_vocab)

text \<open>
  Claim C7 as amended. For a training set of non-negative counts over a vocabulary of at
  least one word, every class \<open>c\<close> with an example and every \<open>delta > 0\<close>, the
  conditional vector stored for \<open>c\<close> has one entry per word, sums to 1 (exactly, hence
  within \<open>1e-6\<close>) and each of its entries is strictly positive.
\<close>

theorem fit_conditional_distribution:
  assumes "wf_tensor features" and "length (rows features) = length labels"
    and "\<forall>l \<in> set labels. 0 \<le> l"
    and "\<forall>r \<in> set (rows features). \<forall>x \<in> set r. 0 \<le> x"
    and "0 < ncols features" and "0 < delta" and "c \<in> set labels"
  shows "\<exists>m features' conds p.
           fit self features labels delta = Inr (m, features') \<and>
           conditional_probabilities m = Some conds \<and>
           map_of conds c = Some p \<and> length p = ncols features \<and>
           sum_list p = 1 \<and> \<bar>sum_list p - 1\<bar> \<le> 1 / 10 ^ 6 \<and>
           (\<forall>x \<in> set p. 0 < x)"
proof -
  from fit_returns[OF assms(1-3), of self delta]
  obtain m F' conds where fit: "fit self features labels delta = Inr (m, F')"
    and cp: "conditional_probabilities m = Some conds"
    and look: "\<And>x. map_of conds x =
      (if x \<in> set labels
       then Some (smoothed_probs (class_word_counts features labels x) delta (ncols features))
       else None)" by blast
  let ?p = "smoothed_probs (class_word_counts features labels c) delta (ncols features)"
  have p: "map_of conds c = Some ?p" using look assms(7) by simp
  have len: "length ?p = ncols features"
    by (simp add: smoothed_probs_def length_class_word_counts)
  from smoothed_probs_distribution[OF length_class_word_counts assms(5,6)
      class_word_counts_nonneg[OF assms(1,4)]]
  have "sum_list ?p = 1" "\<forall>x \<in> set ?p. 0 < x" by auto
  then show ?thesis using fit cp p len by auto
qed

text \<open>The theorem at class 1 of the specification's scenario.\<close>

theorem fit_conditional_distribution_witness:
  "\<exists>m features' conds p.
     fit NaiveBayes_init spec_features [0, 0, 1] 1 = Inr (m, features') \<and>
     conditional_probabilities m = Some conds \<and>
     map_of conds 1 = Some p \<and> length p = 3 \<and> sum_list p = 1 \<and> (\<forall>x \<in> set p. 0 < x)"
proof -
  have wf: "wf_tensor spec_features" by (simp add: wf_tensor_def spec_features_def)
  have len: "length (rows spec_features) = length [0, 0, 1 :: int]"
    by (simp add: spec_features_def)
  have nonneg: "\<forall>l \<in> set [0, 0, 1 :: int]. 0 \<le> l" by simp
  have entries: "\<forall>r \<in> set (rows spec_features). \<forall>x \<in> set r. 0 \<le> x"
    by (simp add: spec_features_def)
  have cols: "0 < ncols spec_features" by (simp add: spec_features_def)
  have three: "ncols spec_features = 3" by (simp add: spec_features_def)
  from fit_conditional_distribution[OF wf len nonneg entries cols, of 1 1 NaiveBayes_init]
  show ?thesis unfolding three by auto
qed

section \<open>The worked scenarios\<close>

lemma fit_spec_model:
  "fit NaiveBayes_init spec_features [0, 0, 1] 1 =
     Inr (spec_model, spec_features\<lparr>rows := [[1, 1, 2], [0, 1, 1], [1, 1, 0]]\<rparr>)"
  by (simp add: fit_spec_features spec_model_def) (simp add: spec_features_def)

lemma fit_gap_model:
  "fit NaiveBayes_init two_word_features [0, 2] 1 = Inr (gap_model, two_word_features)"
  by (simp add: fit_gap_labels gap_model_def)

lemma fit_unsmoothed:
  "fit NaiveBayes_init two_word_features [0, 1] 0 = Inr (unsmoothed_model, two_word_features)"
  by (simp add: fit_def bincount_def num_classes_def estimate_conditional_probabilities_def
      two_word_features_def NaiveBayes_init_def smoothed_probs_def unsmoothed_model_def upt_rec numeral_eq_Suc)

lemma unsmoothed_posteriors:
  "estimate_class_posteriors unsmoothed_model [0, 1] = Inr [MInf, NaN]"
  by (simp add: estimate_class_posteriors_def unsmoothed_model_def broadcast_mul_def index_put_def tlog_def)

lemma unsmoothed_predict: "predict unsmoothed_model [0, 1] = Inr 1"
  by (simp add: predict_def unsmoothed_posteriors falsy_def beats_def) (simp add: unsmoothed_model_def)

lemma unsmoothed_proba: "predict_proba unsmoothed_model [0, 1] = Inr [NaN, NaN]"
  by (simp add: predict_proba_def unsmoothed_posteriors falsy_def softmax_def tmax2_def)
     (simp add: unsmoothed_model_def)

lemma argmax_nans: "argmax [NaN, NaN] = Inr 0"
  by (simp add: beats_def)

lemma gap_posteriors: "estimate_class_posteriors gap_model [1, 1] = Inl (KeyError 1)"
  by (simp add: estimate_class_posteriors_def gap_model_def broadcast_mul_def index_put_def tlog_def)

lemma gap_predict: "predict gap_model [1, 1] = Inl (KeyError 1)"
  by (simp add: predict_def gap_posteriors falsy_def) (simp add: gap_model_def)

lemma gap_proba: "predict_proba gap_model [1, 1] = Inl (KeyError 1)"
  by (simp add: predict_proba_def gap_posteriors falsy_def) (simp add: gap_model_def)

lemma spec_posteriors:
  "estimate_class_posteriors spec_model [1, 1, 0] =
     Inr [Fin (ln (2 / 3) + (ln (2 / 7) + ln (2 / 7))), Fin (ln (1 / 3) + (ln (2 / 5) + ln (2 / 5)))]"
  by (simp add: estimate_class_posteriors_def spec_model_def broadcast_mul_def index_put_def
      tlog_def)

lemma spec_posteriors_order:
  "ln (1 / 3) + (ln (2 / 5) + ln (2 / 5)) < ln (2 / 3) + (ln (2 / 7) + ln (2 / 7) :: real)"
proof -
  have a: "ln ((2 / 5) * (2 / 5) :: real) = ln (2 / 5) + ln (2 / 5)"
    by (rule ln_mult_pos) simp_all
  have b: "ln ((1 / 3) * ((2 / 5) * (2 / 5)) :: real) = ln (1 / 3) + ln ((2 / 5) * (2 / 5))"
    by (rule ln_mult_pos) simp_all
  have c: "ln ((2 / 7) * (2 / 7) :: real) = ln (2 / 7) + ln (2 / 7)"
    by (rule ln_mult_pos) simp_all
  have d: "ln ((2 / 3) * ((2 / 7) * (2 / 7)) :: real) = ln (2 / 3) + ln ((2 / 7) * (2 / 7))"
    by (rule ln_mult_pos) simp_all
  have "ln ((1 / 3) * ((2 / 5) * (2 / 5)) :: real) < ln ((2 / 3) * ((2 / 7) * (2 / 7)))"
    by (subst ln_less_cancel_iff) simp_all
  then show ?thesis by (simp only: a b c d)
qed

lemma spec_not_falsy:
  "\<not> (falsy (class_priors spec_model) \<or> falsy (conditional_probabilities spec_model))"
  by (simp add: falsy_def spec_model_def)

lemma spec_predict: "predict spec_model [1, 1, 0] = Inr 0"
  using spec_posteriors_order
  by (simp add: predict_def spec_posteriors spec_not_falsy beats_def)

lemma spec_proba:
  "predict_proba spec_model [1, 1, 0] =
     Inr (softmax [Fin (ln (2 / 3) + (ln (2 / 7) + ln (2 / 7))),
                   Fin (ln (1 / 3) + (ln (2 / 5) + ln (2 / 5)))])"
  by (simp add: predict_proba_def spec_posteriors spec_not_falsy)

lemma spec_defined:
  "softmax_defined [Fin (ln (2 / 3) + (ln (2 / 7) + ln (2 / 7))),
                    Fin (ln (1 / 3) + (ln (2 / 5) + ln (2 / 5)))]"
  by (simp add: softmax_defined_def)

section \<open>Inference on a model with a missing class\<close>

text \<open>
  Claim C2 says that for every fitted model and every feature vector of length
  \<open>vocab_size\<close>, \<open>estimate_class_posteriors\<close> returns a vector with the entry
  \<open>log(prior(c)) + \<Sum>j feature[j] * log(conditional(c)[j])\<close> for each class \<open>c\<close>. On the
  model that \<open>fit\<close> stores for the labels \<open>[0, 2]\<close> the loop over the keys of
  \<open>class_priors\<close> reaches class 1, which has a prior and no conditionals, and the lookup
  \<open>self.conditional_probabilities[1]\<close> raises \<open>KeyError\<close>: no vector is returned.
\<close>

theorem estimate_class_posteriors_missing_class:
  "fit NaiveBayes_init two_word_features [0, 2] 1 = Inr (gap_model, two_word_features) \<and>
   estimate_class_posteriors gap_model [1, 1] = Inl (KeyError 1)"
  by (intro conjI fit_gap_model gap_posteriors)

text \<open>
  Claim C9 says that for every fitted model and every feature vector \<open>predict\<close> returns
  the first of the classes that attain the maximal log-posterior. On the same model the
  classes 0 and 2 have the same log-posterior for the feature \<open>[1, 1]\<close>, so class 0 is
  the one to return, and \<open>predict\<close> raises \<open>KeyError\<close> instead.
\<close>

theorem predict_missing_class:
  "fit NaiveBayes_init two_word_features [0, 2] 1 = Inr (gap_model, two_word_features) \<and>
   log_posterior (1 / 2) [2 / 3, 1 / 3] [1, 1] = log_posterior (1 / 2) [1 / 3, 2 / 3] [1, 1] \<and>
   predict gap_model [1, 1] = Inl (KeyError 1)"
proof -
  have two: "{..<2} = {0, 1 :: nat}" by auto
  have "log_posterior (1 / 2) [2 / 3, 1 / 3] [1, 1] = log_posterior (1 / 2) [1 / 3, 2 / 3] [1, 1]"
    by (simp add: log_posterior_def two)
  then show ?thesis by (simp add: fit_gap_model gap_predict)
qed

section \<open>Argmax and softmax\<close>

lemma tmax_no_nan_pinf:
  "\<forall>x \<in> set v. x \<noteq> NaN \<and> x \<noteq> PInf \<Longrightarrow> tmax v \<noteq> NaN \<and> tmax v \<noteq> PInf"
proof (induction v)
  case Nil
  show ?case by simp
next
  case (Cons a v)
  then have ih: "tmax v \<noteq> NaN \<and> tmax v \<noteq> PInf" and a: "a \<noteq> NaN" "a \<noteq> PInf" by auto
  then show ?case by (auto simp: tmax2_def)
qed

lemma tmax_MInf:
  "\<forall>x \<in> set v. x \<noteq> NaN \<and> x \<noteq> PInf \<Longrightarrow> tmax v = MInf \<Longrightarrow> \<forall>x \<in> set v. x = MInf"
proof (induction v)
  case Nil
  show ?case by simp
next
  case (Cons a v)
  from Cons.prems(1) have nn: "\<forall>x \<in> set v. x \<noteq> NaN \<and> x \<noteq> PInf" and a: "a \<noteq> NaN" "a \<noteq> PInf"
    by auto
  from tmax_no_nan_pinf[OF nn] have t: "tmax v \<noteq> NaN" "tmax v \<noteq> PInf" by auto
  from Cons.prems(2) a t have "a = MInf \<and> tmax v = MInf"
    by (cases a; cases "tmax v") (auto simp: tmax2_def split: if_splits)
  then show ?case using Cons.IH[OF nn] by auto
qed

lemma tmax_finite:
  assumes "softmax_defined v"
  shows "\<exists>M. tmax v = Fin M"
proof -
  from assms have nn: "\<forall>x \<in> set v. x \<noteq> NaN \<and> x \<noteq> PInf" and some: "\<exists>x \<in> set v. x \<noteq> MInf"
    unfolding softmax_defined_def by blast+
  have "tmax v \<noteq> MInf" using tmax_MInf[OF nn] some by blast
  then show ?thesis using tmax_no_nan_pinf[OF nn] by (cases "tmax v") auto
qed

lemma texp_shift:
  "x \<noteq> NaN \<Longrightarrow> x \<noteq> PInf \<Longrightarrow> texp (tadd x (Fin (- M))) = Fin (shifted_exp M x)"
  by (cases x) auto

lemma tsum_Fin: "tsum (map Fin rs) = Fin (sum_list rs)"
  by (induction rs) auto

lemma shifted_exp_nonneg: "0 \<le> shifted_exp M x"
  by (cases x) auto

lemma shifted_exp_sum_pos:
  assumes "softmax_defined v"
  shows "0 < (\<Sum>x\<leftarrow>v. shifted_exp M x)"
proof -
  from assms obtain x where x: "x \<in> set v" "x \<noteq> MInf" "x \<noteq> NaN" "x \<noteq> PInf"
    unfolding softmax_defined_def by blast
  have pos: "0 < shifted_exp M x" using x(2-4) by (cases x) auto
  have "shifted_exp M x \<le> (\<Sum>x\<leftarrow>v. shifted_exp M x)"
    using x(1) by (intro member_le_sum_list) (auto simp: shifted_exp_nonneg)
  with pos show ?thesis by linarith
qed

lemma softmax_as_map:
  assumes "softmax_defined v" and "tmax v = Fin M"
  shows "softmax v = map (\<lambda>x. Fin (shifted_exp M x / (\<Sum>y\<leftarrow>v. shifted_exp M y))) v"
proof -
  from assms(1) have nn: "\<forall>x \<in> set v. x \<noteq> NaN \<and> x \<noteq> PInf"
    unfolding softmax_defined_def by blast
  have e: "map (\<lambda>x. texp (tadd x (tneg (Fin M)))) v = map Fin (map (shifted_exp M) v)"
    using nn by (simp add: texp_shift)
  have s: "tsum (map Fin (map (shifted_exp M) v)) = Fin (\<Sum>y\<leftarrow>v. shifted_exp M y)"
    by (rule tsum_Fin)
  have S: "(\<Sum>y\<leftarrow>v. shifted_exp M y) \<noteq> 0" using shifted_exp_sum_pos[OF assms(1), of M] by simp
  show ?thesis
    unfolding softmax_def assms(2) Let_def e s using S by (simp add: comp_def)
qed

lemma softmax_distribution:
  assumes "softmax_defined v"
  shows "\<exists>ps. softmax v = map Fin ps \<and> length ps = length v \<and>
           (\<forall>p \<in> set ps. 0 \<le> p \<and> p \<le> 1) \<and> sum_list ps = 1"
proof -
  from tmax_finite[OF assms] obtain M where M: "tmax v = Fin M" by blast
  let ?S = "\<Sum>y\<leftarrow>v. shifted_exp M y"
  let ?ps = "map (\<lambda>x. shifted_exp M x / ?S) v"
  have S: "0 < ?S" by (rule shifted_exp_sum_pos[OF assms])
  have "softmax v = map Fin ?ps"
    using softmax_as_map[OF assms M] by (simp add: comp_def)
  moreover have "sum_list ?ps = 1"
  proof -
    have "sum_list ?ps = ?S / ?S" by (simp add: sum_list_divide comp_def)
    then show ?thesis using S by simp
  qed
  moreover have "\<forall>p \<in> set ?ps. 0 \<le> p \<and> p \<le> 1"
  proof
    fix p assume "p \<in> set ?ps"
    then obtain x where x: "x \<in> set v" "p = shifted_exp M x / ?S" by auto
    have "shifted_exp M x \<le> ?S"
      using x(1) by (intro member_le_sum_list) (auto simp: shifted_exp_nonneg)
    then show "0 \<le> p \<and> p \<le> 1" using S x(2) shifted_exp_nonneg[of M x] by simp
  qed
  ultimately show ?thesis by (intro exI[of _ ?ps]) simp
qed

lemma argmax_loop_map:
  "\<forall>x \<in> set (bv # xs). \<forall>y \<in> set (bv # xs). beats (g x) (g y) = beats x y \<Longrightarrow>
   argmax_loop i b (g bv) (map g xs) = argmax_loop i b bv xs"
proof (induction xs arbitrary: i b bv)
  case Nil
  show ?case by simp
next
  case (Cons x xs)
  have head: "beats (g x) (g bv) = beats x bv" using Cons.prems by simp
  have keep: "\<forall>u \<in> set (bv # xs). \<forall>w \<in> set (bv # xs). beats (g u) (g w) = beats u w"
    using Cons.prems by simp
  have take: "\<forall>u \<in> set (x # xs). \<forall>w \<in> set (x # xs). beats (g u) (g w) = beats u w"
    using Cons.prems by simp
  show ?case
    using head Cons.IH[OF keep] Cons.IH[OF take] by simp
qed

lemma argmax_map:
  "\<forall>x \<in> set v. \<forall>y \<in> set v. beats (g x) (g y) = beats x y \<Longrightarrow> argmax (map g v) = argmax v"
  by (cases v) (simp_all add: argmax_loop_map)

lemma beats_shifted:
  assumes "x \<noteq> NaN" "x \<noteq> PInf" "y \<noteq> NaN" "y \<noteq> PInf" and S: "0 < S"
  shows "beats (Fin (shifted_exp M x / S)) (Fin (shifted_exp M y / S)) = beats x y"
proof -
  have pos: "0 < exp a / S" for a :: real using S by simp
  have mono: "exp (a - M) / S < exp (b - M) / S \<longleftrightarrow> a < b" for a b :: real
    using S by (simp add: divide_less_cancel)
  show ?thesis
    using assms(1-4) pos mono
    by (cases x; cases y) (auto simp: beats_def not_less intro: less_imp_le)
qed

lemma argmax_softmax:
  assumes "softmax_defined v"
  shows "argmax (softmax v) = argmax v"
proof -
  from tmax_finite[OF assms] obtain M where M: "tmax v = Fin M" by blast
  let ?S = "\<Sum>y\<leftarrow>v. shifted_exp M y"
  have S: "0 < ?S" by (rule shifted_exp_sum_pos[OF assms])
  from assms have nn: "\<forall>x \<in> set v. x \<noteq> NaN \<and> x \<noteq> PInf"
    unfolding softmax_defined_def by blast
  have "argmax (map (\<lambda>x. Fin (shifted_exp M x / ?S)) v) = argmax v"
    using nn S by (intro argmax_map) (auto simp: beats_shifted)
  then show ?thesis using softmax_as_map[OF assms M] by simp
qed

lemma argmax_loop_first_max:
  "first_max pre b \<Longrightarrow> length pre = i \<Longrightarrow>
   first_max (pre @ xs) (argmax_loop i b (Fin (pre ! b)) (map Fin xs))"
proof (induction xs arbitrary: pre b i)
  case Nil
  then show ?case by simp
next
  case (Cons x xs)
  show ?case
  proof (cases "pre ! b < x")
    case True
    have fm: "first_max (pre @ [x]) i"
      unfolding first_max_def
    proof (intro conjI allI impI)
      show "i < length (pre @ [x])" using Cons.prems by simp
    next
      fix j assume "j < length (pre @ [x])"
      then show "(pre @ [x]) ! j \<le> (pre @ [x]) ! i"
        using Cons.prems True unfolding first_max_def
        by (cases "j = i") (auto simp: nth_append less_Suc_eq intro: order.trans less_imp_le)
    next
      fix j assume "j < i"
      then show "(pre @ [x]) ! j < (pre @ [x]) ! i"
        using Cons.prems True unfolding first_max_def
        by (auto simp: nth_append intro: le_less_trans)
    qed
    have "first_max ((pre @ [x]) @ xs) (argmax_loop (Suc i) i (Fin ((pre @ [x]) ! i)) (map Fin xs))"
      using Cons.IH[OF fm] Cons.prems by simp
    moreover have "(pre @ [x]) ! i = x" using Cons.prems(2)[symmetric] by simp
    ultimately show ?thesis using True by (simp add: beats_def)
  next
    case False
    have b: "b < length pre" using Cons.prems unfolding first_max_def by simp
    have fm: "first_max (pre @ [x]) b"
      using Cons.prems False unfolding first_max_def
      by (auto simp: nth_append less_Suc_eq not_less)
    have "first_max ((pre @ [x]) @ xs) (argmax_loop (Suc i) b (Fin ((pre @ [x]) ! b)) (map Fin xs))"
      using Cons.IH[OF fm] Cons.prems by simp
    then show ?thesis using False b by (simp add: nth_append beats_def)
  qed
qed

lemma argmax_Fin_first_max: "argmax (map Fin ps) = Inr c \<Longrightarrow> first_max ps c"
proof (cases ps)
  case Nil
  assume "argmax (map Fin ps) = Inr c"
  then show ?thesis using Nil by simp
next
  case (Cons x xs)
  assume a: "argmax (map Fin ps) = Inr c"
  have "first_max [x] 0" by (simp add: first_max_def)
  from argmax_loop_first_max[OF this, of 1 xs]
  have "first_max (x # xs) (argmax_loop 1 0 (Fin x) (map Fin xs))" by simp
  then show ?thesis using a Cons by simp
qed

section \<open>Prediction\<close>

text \<open>
  Claim C4 says that for every fitted model and every feature vector the class id that
  \<open>predict\<close> returns is the index of the maximal entry of \<open>predict_proba\<close>. For the
  model fitted without smoothing (\<open>delta = 0\<close>) on the features \<open>[[1,0],[0,1]]\<close> with
  the labels \<open>[0, 1]\<close>, the feature \<open>[0, 1]\<close> has the log-posteriors \<open>[-inf, nan]\<close>:
  \<open>predict\<close> returns class 1, since \<open>nan\<close> counts as the maximum, while
  \<open>predict_proba\<close> returns \<open>[nan, nan]\<close>, whose \<open>argmax\<close> is 0.
\<close>

theorem predict_differs_from_argmax_of_predict_proba:
  "fit NaiveBayes_init two_word_features [0, 1] 0 = Inr (unsmoothed_model, two_word_features) \<and>
   predict unsmoothed_model [0, 1] = Inr 1 \<and>
   predict_proba unsmoothed_model [0, 1] = Inr [NaN, NaN] \<and>
   argmax [NaN, NaN] = Inr 0"
  by (intro conjI fit_unsmoothed unsmoothed_predict unsmoothed_proba argmax_nans)

text \<open>
  Claim C4 as amended. Whenever \<open>predict\<close> returns a class and the log-posteriors of
  the feature contain no \<open>nan\<close> and no \<open>+inf\<close> and at least one number,
  \<open>predict_proba\<close> returns a vector of numbers, and the class id from \<open>predict\<close> is
  the index that \<open>torch.argmax\<close> gives on that vector: the first index at which its
  maximum is attained. Softmax is strictly increasing in each entry, so it keeps the
  ranking.
\<close>

theorem predict_is_argmax_of_predict_proba:
  assumes "predict m feature = Inr c"
    and "estimate_class_posteriors m feature = Inr lp"
    and "softmax_defined lp"
  shows "\<exists>ps. predict_proba m feature = Inr (map Fin ps) \<and>
           argmax (map Fin ps) = Inr c \<and> first_max ps c"
proof -
  from assms(1) have nf: "\<not> (falsy (class_priors m) \<or> falsy (conditional_probabilities m))"
    by (auto simp: predict_def split: if_splits)
  then have c: "argmax lp = Inr c" using assms(1,2) by (simp add: predict_def)
  have proba: "predict_proba m feature = Inr (softmax lp)"
    using nf assms(2) by (simp add: predict_proba_def)
  from softmax_distribution[OF assms(3)] obtain ps where ps: "softmax lp = map Fin ps" by blast
  have "argmax (map Fin ps) = Inr c" using argmax_softmax[OF assms(3)] c ps by simp
  moreover from this have "first_max ps c" by (rule argmax_Fin_first_max)
  ultimately show ?thesis using proba ps by (intro exI[of _ ps]) simp
qed

text \<open>
  In the specification's scenario, \<open>predict([1,1,0])\<close> is class 0, whose
  log-posterior \<open>ln (8/147)\<close> exceeds the \<open>ln (4/75)\<close> of class 1.
\<close>

theorem predict_is_argmax_of_predict_proba_witness:
  "predict spec_model [1, 1, 0] = Inr 0 \<and>
   (\<exists>ps. predict_proba spec_model [1, 1, 0] = Inr (map Fin ps) \<and>
      argmax (map Fin ps) = Inr 0 \<and> first_max ps 0)"
  using predict_is_argmax_of_predict_proba[OF spec_predict spec_posteriors spec_defined]
    spec_predict by simp

text \<open>
  Claim C8 says that for every fitted model and every feature vector of length
  \<open>vocab_size\<close> the vector from \<open>predict_proba\<close> has its entries in \<open>[0,1]\<close> and sums
  to 1. For the model fitted without smoothing above and the feature \<open>[0, 1]\<close> the
  log-posteriors are \<open>[-inf, nan]\<close> and \<open>predict_proba\<close> returns \<open>[nan, nan]\<close>.
\<close>

theorem predict_proba_all_nan:
  "fit NaiveBayes_init two_word_features [0, 1] 0 = Inr (unsmoothed_model, two_word_features) \<and>
   estimate_class_posteriors unsmoothed_model [0, 1] = Inr [MInf, NaN] \<and>
   predict_proba unsmoothed_model [0, 1] = Inr [NaN, NaN]"
  by (intro conjI fit_unsmoothed unsmoothed_posteriors unsmoothed_proba)

text \<open>
  Claim C8 as amended. Whenever \<open>predict_proba\<close> returns and the log-posteriors of the
  feature contain no \<open>nan\<close> and no \<open>+inf\<close> and at least one number, the returned
  vector consists of numbers, one per class, all in \<open>[0,1]\<close>, and they sum to 1
  (exactly, hence within \<open>1e-6\<close>).
\<close>

theorem predict_proba_distribution:
  assumes "predict_proba m feature = Inr probs"
    and "estimate_class_posteriors m feature = Inr lp"
    and "softmax_defined lp"
  shows "\<exists>ps. probs = map Fin ps \<and> length ps = length lp \<and>
           (\<forall>p \<in> set ps. 0 \<le> p \<and> p \<le> 1) \<and>
           sum_list ps = 1 \<and> \<bar>sum_list ps - 1\<bar> \<le> 1 / 10 ^ 6"
proof -
  from assms(1) have nf: "\<not> (falsy (class_priors m) \<or> falsy (conditional_probabilities m))"
    by (auto simp: predict_proba_def split: if_splits)
  then have "probs = softmax lp" using assms(1,2) by (simp add: predict_proba_def)
  with softmax_distribution[OF assms(3)] show ?thesis by auto
qed

text \<open>The theorem in the specification's scenario.\<close>

theorem predict_proba_distribution_witness:
  "\<exists>ps. predict_proba spec_model [1, 1, 0] = Inr (map Fin ps) \<and> length ps = 2 \<and>
     (\<forall>p \<in> set ps. 0 \<le> p \<and> p \<le> 1) \<and> sum_list ps = 1"
proof -
  from predict_proba_distribution[OF spec_proba spec_posteriors spec_defined]
  obtain ps where "softmax [Fin (ln (2 / 3) + (ln (2 / 7) + ln (2 / 7))),
                   Fin (ln (1 / 3) + (ln (2 / 5) + ln (2 / 5)))] = map Fin ps"
    "length ps = 2" "\<forall>p \<in> set ps. 0 \<le> p \<and> p \<le> 1" "sum_list ps = 1"
    by auto
  then show ?thesis using spec_proba by auto
qed

section \<open>Models fitted with smoothing\<close>

text \<open>
  With \<open>delta > 0\<close> and no missing class every stored probability is positive, so every
  log-posterior is a number, namely the one the specification writes, \<open>predict\<close>
  returns, and softmax is defined: the two theorems above apply to every such model and
  every feature vector of length \<open>vocab_size\<close>.
\<close>

lemma index_put_in_range:
  "0 \<le> c \<Longrightarrow> nat c < length t \<Longrightarrow> index_put t c x = Inr (t[nat c := x])"
  by (simp add: index_put_def)

lemma sum_list_map2_nth:
  assumes "length a = length b"
  shows "sum_list (map2 (*) a (map g b)) = (\<Sum>j < length a. a ! j * g (b ! j) :: real)"
proof -
  have "sum_list (map2 (*) a (map g b)) =
        (\<Sum>j = 0..<length a. map2 (*) a (map g b) ! j)"
    using assms by (simp add: sum_list_sum_nth)
  also have "\<dots> = (\<Sum>j = 0..<length a. a ! j * g (b ! j))"
    using assms by (intro sum.cong) auto
  finally show ?thesis by (simp add: atLeast0LessThan)
qed

lemma tlog_pos: "0 < x \<Longrightarrow> tlog x = Fin (ln x)"
  by (simp add: tlog_def)

lemma broadcast_mul_pos:
  assumes "length f = length cp" and "\<forall>x \<in> set cp. 0 < x"
  shows "broadcast_mul f (map tlog cp) = Inr (map Fin (map2 (*) f (map ln cp)))"
proof -
  have "map2 (\<lambda>x y. tmul (Fin x) y) f (map tlog cp) = map Fin (map2 (*) f (map ln cp))"
    using assms
  proof (induction f cp rule: list_induct2)
    case Nil
    show ?case by simp
  next
    case (Cons x xs y ys)
    then show ?case by (simp add: tlog_pos)
  qed
  then show ?thesis using assms(1) by (simp add: broadcast_mul_def)
qed

lemma posteriors_loop_dense:
  assumes "\<forall>i. lo \<le> i \<and> i < K \<longrightarrow>
             map_of priors (int i) = Some (P i) \<and> map_of conds (int i) = Some (C i) \<and>
             length (C i) = length f \<and> 0 < P i \<and> (\<forall>x \<in> set (C i). 0 < x)"
    and "length lp = K" and "lo \<le> K"
  shows "posteriors_loop (map int [lo..<K]) priors conds f lp =
           Inr (take lo lp @ map (\<lambda>i. Fin (log_posterior (P i) (C i) f)) [lo..<K])"
  using assms
proof (induction "K - lo" arbitrary: lo lp)
  case 0
  then show ?case by simp
next
  case (Suc n)
  then have lo: "lo < K" by simp
  then have look: "map_of priors (int lo) = Some (P lo)" "map_of conds (int lo) = Some (C lo)"
    "length (C lo) = length f" "0 < P lo" "\<forall>x \<in> set (C lo). 0 < x"
    using Suc.prems(1) by auto
  let ?x = "Fin (log_posterior (P lo) (C lo) f)"
  have mul: "broadcast_mul f (map tlog (C lo)) = Inr (map Fin (map2 (*) f (map ln (C lo))))"
    using look(3,5) by (intro broadcast_mul_pos) simp_all
  have x: "tadd (tlog (P lo)) (tsum (map Fin (map2 (*) f (map ln (C lo))))) = ?x"
  proof -
    have "tsum (map Fin (map2 (*) f (map ln (C lo)))) = Fin (sum_list (map2 (*) f (map ln (C lo))))"
      by (rule tsum_Fin)
    also have "sum_list (map2 (*) f (map ln (C lo))) = (\<Sum>j < length f. f ! j * ln (C lo ! j))"
      using look(3) by (intro sum_list_map2_nth) simp
    finally show ?thesis using look(4) by (simp add: tlog_pos log_posterior_def)
  qed
  have put: "index_put lp (int lo) ?x = Inr (lp[lo := ?x])"
    using lo Suc.prems(2) by (simp add: index_put_in_range)
  have step: "posteriors_loop (map int [lo..<K]) priors conds f lp =
              posteriors_loop (map int [Suc lo..<K]) priors conds f (lp[lo := ?x])"
    using lo by (simp add: upt_conv_Cons look(1,2) mul x put del: map_map)
  have "posteriors_loop (map int [Suc lo..<K]) priors conds f (lp[lo := ?x]) =
        Inr (take (Suc lo) (lp[lo := ?x]) @
             map (\<lambda>i. Fin (log_posterior (P i) (C i) f)) [Suc lo..<K])"
  proof (rule Suc.hyps(1))
    show "n = K - Suc lo" using Suc.hyps(2) by simp
    show "\<forall>i. Suc lo \<le> i \<and> i < K \<longrightarrow>
             map_of priors (int i) = Some (P i) \<and> map_of conds (int i) = Some (C i) \<and>
             length (C i) = length f \<and> 0 < P i \<and> (\<forall>x \<in> set (C i). 0 < x)"
    proof (intro allI impI)
      fix i assume "Suc lo \<le> i \<and> i < K"
      then have "lo \<le> i \<and> i < K" by simp
      then show "map_of priors (int i) = Some (P i) \<and> map_of conds (int i) = Some (C i) \<and>
             length (C i) = length f \<and> 0 < P i \<and> (\<forall>x \<in> set (C i). 0 < x)"
        using Suc.prems(1) by blast
    qed
    show "length (lp[lo := ?x]) = K" using Suc.prems(2) by simp
    show "Suc lo \<le> K" using lo by simp
  qed
  moreover have "take (Suc lo) (lp[lo := ?x]) = take lo lp @ [?x]"
    using lo Suc.prems(2) by (simp add: take_Suc_conv_app_nth)
  ultimately show ?case using step lo by (simp add: upt_conv_Cons)
qed

lemma contiguous_class:
  assumes "valid_training F L" and "i < num_classes L"
  shows "int i \<in> set L"
proof -
  from assms(1) have nonneg: "\<forall>l \<in> set L. 0 \<le> l"
    and cont: "\<forall>c \<in> {0..Max (set L)}. c \<in> set L"
    unfolding valid_training_def by blast+
  have "0 \<le> int i \<and> nat (int i) < num_classes L" using assms(2) by simp
  then have "\<exists>l \<in> set L. int i \<le> l" using class_range[OF nonneg, of "int i"] by blast
  then obtain l where l: "l \<in> set L" "int i \<le> l" by blast
  have "l \<le> Max (set L)" using l(1) by (intro Max_ge) simp_all
  then have "int i \<le> Max (set L)" using l(2) by linarith
  then have "int i \<in> {0..Max (set L)}" by simp
  then show ?thesis using cont by blast
qed

lemma smoothed_probs_pos:
  assumes "0 < d" "\<forall>w \<in> set ws. 0 \<le> w"
  shows "\<forall>x \<in> set (smoothed_probs ws d (length ws)). 0 < x"
proof (cases "ws = []")
  case True
  then show ?thesis by (simp add: smoothed_probs_def)
next
  case False
  then have "0 < length ws" by simp
  from smoothed_probs_distribution(2)[OF refl this assms] show ?thesis .
qed

lemma fitted_prior_entry:
  assumes valid: "valid_training F L" and i: "i < num_classes L"
  shows "map_of (fitted_priors L) (int i) = Some (real (count_list L (int i)) / real (length L))"
    and "0 < real (count_list L (int i)) / real (length L)"
proof -
  from valid have ne: "L \<noteq> []" unfolding valid_training_def by blast
  have mem: "int i \<in> set L" using contiguous_class[OF valid i] .
  then have "count_list L (int i) \<noteq> 0" by (simp add: count_list_0_iff)
  then have "0 < count_list L (int i)" by simp
  then show "0 < real (count_list L (int i)) / real (length L)" using ne by simp
  show "map_of (fitted_priors L) (int i) = Some (real (count_list L (int i)) / real (length L))"
    using i by (simp add: map_of_fitted_priors)
qed

lemma fitted_conditional_entry:
  assumes valid: "valid_training F L" and i: "i < num_classes L"
    and look: "\<And>x. map_of conds x =
      (if x \<in> set L then Some (smoothed_probs (class_word_counts F L x) d (ncols F)) else None)"
  shows "map_of conds (int i) = Some (smoothed_probs (class_word_counts F L (int i)) d (ncols F))"
    and "length (smoothed_probs (class_word_counts F L (int i)) d (ncols F)) = ncols F"
    and "0 < d \<Longrightarrow> \<forall>x \<in> set (smoothed_probs (class_word_counts F L (int i)) d (ncols F)). 0 < x"
proof -
  from valid have wf: "wf_tensor F"
    and entries: "\<forall>r \<in> set (rows F). \<forall>x \<in> set r. 0 \<le> x"
    unfolding valid_training_def by blast+
  have mem: "int i \<in> set L" using contiguous_class[OF valid i] .
  show "map_of conds (int i) = Some (smoothed_probs (class_word_counts F L (int i)) d (ncols F))"
    using mem by (simp add: look)
  show "length (smoothed_probs (class_word_counts F L (int i)) d (ncols F)) = ncols F"
    by (simp add: smoothed_probs_def length_class_word_counts)
  assume d: "0 < d"
  have "\<forall>x \<in> set (smoothed_probs (class_word_counts F L (int i)) d
                    (length (class_word_counts F L (int i)))). 0 < x"
    by (rule smoothed_probs_pos[OF d class_word_counts_nonneg[OF wf entries]])
  then show "\<forall>x \<in> set (smoothed_probs (class_word_counts F L (int i)) d (ncols F)). 0 < x"
    by (simp only: length_class_word_counts)
qed

lemma num_classes_pos: "L \<noteq> [] \<Longrightarrow> 0 < num_classes L"
proof -
  assume "L \<noteq> []"
  then obtain a where "a \<in> set L" by (cases L) auto
  then show ?thesis using num_classes_bound[of a L] by simp
qed

lemma fitted_posteriors:
  assumes valid: "valid_training F L" and d: "0 < d" and fit: "fit self F L d = Inr (m, F')"
    and len: "length f = ncols F"
  shows "\<exists>lp. estimate_class_posteriors m f = Inr (map Fin lp) \<and> lp \<noteq> [] \<and>
           lp = map (\<lambda>i. log_posterior (real (count_list L (int i)) / real (length L))
                           (smoothed_probs (class_word_counts F L (int i)) d (ncols F)) f)
                  [0..<num_classes L] \<and>
           (\<exists>c. predict m f = Inr c) \<and> softmax_defined (map Fin lp)"
proof -
  from valid have wf: "wf_tensor F" and rl: "length (rows F) = length L" and ne: "L \<noteq> []"
    and nonneg: "\<forall>l \<in> set L. 0 \<le> l"
    unfolding valid_training_def by blast+
  let ?K = "num_classes L"
  let ?C = "\<lambda>i. smoothed_probs (class_word_counts F L (int i)) d (ncols F)"
  let ?P = "\<lambda>i. real (count_list L (int i)) / real (length L)"
  let ?lp = "map (\<lambda>i. log_posterior (?P i) (?C i) f) [0..<?K]"
  from fit_returns[OF wf rl nonneg, of self d]
  obtain m0 F0 conds where fit0: "fit self F L d = Inr (m0, F0)"
    and pri0: "class_priors m0 = Some (fitted_priors L)"
    and cp0: "conditional_probabilities m0 = Some conds"
    and look: "\<forall>x. map_of conds x =
      (if x \<in> set L then Some (smoothed_probs (class_word_counts F L x) d (ncols F)) else None)"
    by blast
  from fit fit0 have "m0 = m" by simp
  with pri0 cp0 have pri: "class_priors m = Some (fitted_priors L)"
    and cp: "conditional_probabilities m = Some conds" by simp_all
  have K: "0 < ?K" using ne by (rule num_classes_pos)
  have look': "\<And>x. map_of conds x =
      (if x \<in> set L then Some (smoothed_probs (class_word_counts F L x) d (ncols F)) else None)"
    using look by blast
  have "map_of conds (int 0) \<noteq> None"
    using fitted_conditional_entry(1)[OF valid K look'] by simp
  then have cne: "conds \<noteq> []" by auto
  have ent: "\<forall>i. 0 \<le> i \<and> i < ?K \<longrightarrow>
      map_of (fitted_priors L) (int i) = Some (?P i) \<and> map_of conds (int i) = Some (?C i) \<and>
      length (?C i) = length f \<and> 0 < ?P i \<and> (\<forall>x \<in> set (?C i). 0 < x)"
  proof (intro allI impI conjI)
    fix i assume "0 \<le> i \<and> i < ?K"
    then have i: "i < ?K" by simp
    show "map_of (fitted_priors L) (int i) = Some (?P i)"
      by (rule fitted_prior_entry(1)[OF valid i])
    show "0 < ?P i" by (rule fitted_prior_entry(2)[OF valid i])
    show "map_of conds (int i) = Some (?C i)"
      by (rule fitted_conditional_entry(1)[OF valid i look'])
    show "length (?C i) = length f"
      using fitted_conditional_entry(2)[OF valid i look'] len by simp
    show "\<forall>x \<in> set (?C i). 0 < x"
      by (rule fitted_conditional_entry(3)[OF valid i look' d])
  qed
  have lenrep: "length (replicate ?K (Fin 0)) = ?K" by simp
  have loop: "posteriors_loop (map int [0..<?K]) (fitted_priors L) conds f (replicate ?K (Fin 0)) =
      Inr (take 0 (replicate ?K (Fin 0)) @ map (\<lambda>i. Fin (log_posterior (?P i) (?C i) f)) [0..<?K])"
    by (rule posteriors_loop_dense[OF ent lenrep]) simp
  have lenp: "length (fitted_priors L) = ?K" by (simp add: fitted_priors_def)
  have "estimate_class_posteriors m f =
      posteriors_loop (map int [0..<?K]) (fitted_priors L) conds f (replicate ?K (Fin 0))"
    by (simp add: estimate_class_posteriors_def pri cp fitted_priors_keys lenp)
  then have post: "estimate_class_posteriors m f = Inr (map Fin ?lp)"
    using loop by (simp add: comp_def)
  have lpne: "?lp \<noteq> []" using K by simp
  have "fitted_priors L \<noteq> []" using K by (simp add: fitted_priors_def)
  then have nf: "\<not> falsy (class_priors m)" "\<not> falsy (conditional_probabilities m)"
    using cne by (simp_all add: falsy_def pri cp)
  have "map Fin ?lp \<noteq> []" using K by simp
  then obtain c where "argmax (map Fin ?lp) = Inr c" by (cases "map Fin ?lp") auto
  then have pred: "\<exists>c. predict m f = Inr c" using nf post by (simp add: predict_def)
  have defined: "softmax_defined (map Fin ?lp)"
    unfolding softmax_defined_def using K by auto
  show ?thesis using post lpne pred defined by blast
qed

end
